theory Spec2Isabelle
  imports Complex_Main
begin

section \<open>Data model\<close>

text \<open>
  The program is \<^verbatim>\<open>pagerank.py\<close>. A corpus is a Python dict from a page to the set of
  pages it links to. Dicts keep insertion order and the in-place update of the iterative
  solver depends on that order, so a dict is an association list in insertion order; its
  keys are distinct (\<open>dict_inv\<close>). A link set is the list of its elements in the order
  the interpreter iterates over it; its elements are distinct (\<open>link_sets\<close>).

  Python floats are idealised as \<^typ>\<open>real\<close>: every operation of the program
  (\<open>+\<close>, \<open>-\<close>, \<open>*\<close>, \<open>/\<close>, \<open>abs\<close>, \<open><\<close>) is the exact one, and rounding is not
  modelled. Python ints are \<^typ>\<open>int\<close>.
\<close>

datatype error = KeyError | ZeroDivisionError | IndexError | ValueError

type_synonym ('k, 'v) dict = "('k \<times> 'v) list"

type_synonym 'p corpus = "('p, 'p list) dict"

definition dict_inv :: "('k, 'v) dict \<Rightarrow> bool" where
  "dict_inv d = distinct (map fst d)"

definition link_sets :: "'p corpus \<Rightarrow> bool" where
  "link_sets corpus = list_all (\<lambda>entry. distinct (snd entry)) corpus"

text \<open>The invariant of the spec's data model: every link is a page of the corpus.\<close>

definition links_closed :: "'p corpus \<Rightarrow> bool" where
  "links_closed corpus =
     list_all (\<lambda>entry. list_all (\<lambda>l. l \<in> set (map fst corpus)) (snd entry)) corpus"

definition wf_corpus :: "'p corpus \<Rightarrow> bool" where
  "wf_corpus corpus = (dict_inv corpus \<and> link_sets corpus \<and> links_closed corpus)"

text \<open>\<^verbatim>\<open>d[k] = v\<close>: overwrite in place, or append a new key.\<close>

fun dict_set :: "('k, 'v) dict \<Rightarrow> 'k \<Rightarrow> 'v \<Rightarrow> ('k, 'v) dict" where
  "dict_set [] k v = [(k, v)]"
| "dict_set ((k', v') # d) k v =
     (if k' = k then (k, v) # d else (k', v') # dict_set d k v)"

text \<open>\<^verbatim>\<open>for k in keys: d[k] = v\<close>\<close>

fun dict_fill :: "'k list \<Rightarrow> 'v \<Rightarrow> ('k, 'v) dict \<Rightarrow> ('k, 'v) dict" where
  "dict_fill [] v d = d"
| "dict_fill (k # keys) v d = dict_fill keys v (dict_set d k v)"

section \<open>transition\_model\<close>

text \<open>
  \<^verbatim>\<open>for page_link in corpus[page]: d[page_link] += prob\<close>; reading a key that \<open>d\<close>
  does not have raises KeyError.
\<close>

fun add_prob :: "real \<Rightarrow> 'p list \<Rightarrow> ('p, real) dict \<Rightarrow> error + ('p, real) dict" where
  "add_prob prob [] d = Inr d"
| "add_prob prob (page_link # rest) d =
     (case map_of d page_link of
        None \<Rightarrow> Inl KeyError
      | Some v \<Rightarrow> add_prob prob rest (dict_set d page_link (v + prob)))"

text \<open>
  \<open>corpus[page]\<close> raises KeyError for a page that is no key. Both divisions by
  \<open>len(corpus)\<close> are reached only after that lookup succeeded, so the corpus is not
  empty there; the division by \<open>links\<close> is guarded by \<open>if links\<close>.
\<close>

definition transition_model :: "'p corpus \<Rightarrow> 'p \<Rightarrow> real \<Rightarrow> error + ('p, real) dict" where
  "transition_model corpus page damping_factor =
     (case map_of corpus page of
        None \<Rightarrow> Inl KeyError
      | Some page_links \<Rightarrow>
          let links = length page_links in
          if links \<noteq> 0 then
            let prob = damping_factor / real links;
                additional_prob = (1 - damping_factor) / real (length corpus);
                d = dict_fill (map fst corpus) additional_prob []
            in add_prob prob page_links d
          else
            let prob = 1 / real (length corpus)
            in Inr (dict_fill (map fst corpus) prob []))"

section \<open>The random module\<close>

text \<open>
  The generator is an input of the model: \<open>randbelow_draw\<close> is the integer the generator
  yields for \<^verbatim>\<open>random.choice\<close> (reduced below the length of the sequence), and
  \<open>random_draws i\<close> is the value of \<^verbatim>\<open>random()\<close> in the \<open>i\<close>-th pass of the sampling loop.
\<close>

record rng =
  randbelow_draw :: nat
  random_draws :: "nat \<Rightarrow> real"

text \<open>\<^verbatim>\<open>random.choice(seq)\<close>: IndexError on an empty sequence.\<close>

definition choice :: "'a list \<Rightarrow> nat \<Rightarrow> error + 'a" where
  "choice seq g =
     (if length seq = 0 then Inl IndexError else Inr (seq ! (g mod length seq)))"

text \<open>\<^verbatim>\<open>itertools.accumulate(weights)\<close>: the running sums.\<close>

fun accumulate :: "real \<Rightarrow> real list \<Rightarrow> real list" where
  "accumulate acc [] = []"
| "accumulate acc (w # ws) = (acc + w) # accumulate (acc + w) ws"

text \<open>
  \<^verbatim>\<open>bisect(a, x, lo, hi)\<close>:
  \<^verbatim>\<open>while lo < hi: mid = (lo + hi) // 2; if x < a[mid]: hi = mid else: lo = mid + 1\<close>.
\<close>

function bisect :: "real list \<Rightarrow> real \<Rightarrow> nat \<Rightarrow> nat \<Rightarrow> nat" where
  "bisect a x lo hi =
     (if lo < hi then
        let mid = (lo + hi) div 2 in
        if x < a ! mid then bisect a x lo mid else bisect a x (mid + 1) hi
      else lo)"
  by pat_completeness auto
termination
  by (relation "measure (\<lambda>(a, x, lo, hi). hi - lo)") auto

declare bisect.simps [simp del]

text \<open>
  \<^verbatim>\<open>random.choices(population, weights)[0]\<close>, with \<open>u\<close> the value of \<^verbatim>\<open>random()\<close>:
  the weights are accumulated, a length mismatch or a total that is not positive raises
  ValueError, and the element at \<^verbatim>\<open>bisect(cum_weights, u * total, 0, n - 1)\<close> is returned.
  An empty weight list raises IndexError at \<^verbatim>\<open>cum_weights[-1]\<close>.
\<close>

definition choices :: "'a list \<Rightarrow> real list \<Rightarrow> real \<Rightarrow> error + 'a" where
  "choices population weights u =
     (let n = length population;
          cum_weights = accumulate 0 weights
      in if length cum_weights \<noteq> n then Inl ValueError
         else if cum_weights = [] then Inl IndexError
         else
           let total = last cum_weights in
           if total \<le> 0 then Inl ValueError
           else Inr (population ! bisect cum_weights (u * total) 0 (n - 1)))"

section \<open>sample\_pagerank\<close>

text \<open>
  The body of \<^verbatim>\<open>for i in range(n)\<close>, over the list of the values of \<open>i\<close>. The state is
  the counter dict and the current page.
\<close>

fun sample_loop ::
  "'p corpus \<Rightarrow> real \<Rightarrow> 'p list \<Rightarrow> (nat \<Rightarrow> real) \<Rightarrow> nat list \<Rightarrow>
   ('p, int) dict \<times> 'p \<Rightarrow> error + (('p, int) dict \<times> 'p)" where
  "sample_loop corpus damping_factor all_pages us [] s = Inr s"
| "sample_loop corpus damping_factor all_pages us (i # rest) (d, random_page) =
     (case map_of d random_page of
        None \<Rightarrow> Inl KeyError
      | Some c \<Rightarrow>
          (case transition_model corpus random_page damping_factor of
             Inl e \<Rightarrow> Inl e
           | Inr model \<Rightarrow>
               (case choices all_pages (map snd model) (us i) of
                  Inl e \<Rightarrow> Inl e
                | Inr next_page \<Rightarrow>
                    sample_loop corpus damping_factor all_pages us rest
                      (dict_set d random_page (c + 1), next_page))))"

text \<open>\<^verbatim>\<open>for page in d: d[page] /= n\<close>; true division by the int \<open>0\<close> raises.\<close>

fun divide_all :: "('p, int) dict \<Rightarrow> int \<Rightarrow> error + ('p, real) dict" where
  "divide_all [] n = Inr []"
| "divide_all ((page, c) # rest) n =
     (if n = 0 then Inl ZeroDivisionError
      else (case divide_all rest n of
              Inl e \<Rightarrow> Inl e
            | Inr r \<Rightarrow> Inr ((page, real_of_int c / real_of_int n) # r)))"

definition sample_pagerank ::
  "'p corpus \<Rightarrow> real \<Rightarrow> int \<Rightarrow> rng \<Rightarrow> error + ('p, real) dict" where
  "sample_pagerank corpus damping_factor n gen =
     (let all_pages = map fst corpus in
      case choice all_pages (randbelow_draw gen) of
        Inl e \<Rightarrow> Inl e
      | Inr random_page \<Rightarrow>
          let d = dict_fill (map fst corpus) 0 [] in
          (case sample_loop corpus damping_factor all_pages (random_draws gen)
                  [0 ..< nat n] (d, random_page) of
             Inl e \<Rightarrow> Inl e
           | Inr (d', last_page) \<Rightarrow> divide_all d' n))"

text \<open>
  The pages the loop visits: the value of \<open>random_page\<close> at the head of each pass
  (the page whose counter that pass increments).
\<close>

fun walk ::
  "'p corpus \<Rightarrow> real \<Rightarrow> 'p list \<Rightarrow> (nat \<Rightarrow> real) \<Rightarrow> nat list \<Rightarrow> 'p \<Rightarrow> error + 'p list" where
  "walk corpus damping_factor all_pages us [] random_page = Inr []"
| "walk corpus damping_factor all_pages us (i # rest) random_page =
     (case transition_model corpus random_page damping_factor of
        Inl e \<Rightarrow> Inl e
      | Inr model \<Rightarrow>
          (case choices all_pages (map snd model) (us i) of
             Inl e \<Rightarrow> Inl e
           | Inr next_page \<Rightarrow>
               (case walk corpus damping_factor all_pages us rest next_page of
                  Inl e \<Rightarrow> Inl e
                | Inr visited \<Rightarrow> Inr (random_page # visited))))"

section \<open>iterate\_pagerank\<close>

text \<open>
  The innermost loop, \<^verbatim>\<open>for link in corpus\<close>, over the entries of the corpus:
  \<open>corpus[link]\<close> for a key \<open>link\<close> of the corpus is the link set of the entry visited.
  The division by \<open>len(corpus[link])\<close> happens only when \<open>page\<close> is in that set, so the
  divisor is not zero.
\<close>

fun summation_loop ::
  "'p \<Rightarrow> real \<Rightarrow> ('p, real) dict \<Rightarrow> 'p corpus \<Rightarrow> real \<Rightarrow> error + real" where
  "summation_loop page damping_factor d [] summation = Inr summation"
| "summation_loop page damping_factor d ((link, link_set) # rest) summation =
     (if page \<in> set link_set then
        (case map_of d link of
           None \<Rightarrow> Inl KeyError
         | Some r \<Rightarrow>
             summation_loop page damping_factor d rest
               (summation + damping_factor * r / real (length link_set)))
      else summation_loop page damping_factor d rest summation)"

text \<open>
  One pass of \<^verbatim>\<open>for page in corpus\<close> inside the while loop. The dict \<open>d\<close> is updated in
  place: the summation for a page reads \<open>d\<close> as the earlier pages of this pass left it.
\<close>

fun page_loop ::
  "'p corpus \<Rightarrow> real \<Rightarrow> real \<Rightarrow> 'p list \<Rightarrow> ('p, real) dict \<times> nat \<Rightarrow>
   error + (('p, real) dict \<times> nat)" where
  "page_loop corpus damping_factor odds [] s = Inr s"
| "page_loop corpus damping_factor odds (page # rest) (d, converted_count) =
     (case summation_loop page damping_factor d corpus 0 of
        Inl e \<Rightarrow> Inl e
      | Inr summation \<Rightarrow>
          (case map_of d page of
             None \<Rightarrow> Inl KeyError
           | Some old \<Rightarrow>
               page_loop corpus damping_factor odds rest
                 (dict_set d page (odds + summation),
                  if \<bar>old - (odds + summation)\<bar> < 0.001
                  then converted_count + 1 else converted_count)))"

text \<open>
  \<^verbatim>\<open>while not converged\<close>: the loop has no bound on its passes, so it is a partial
  function; \<open>None\<close> is the loop that never ends.
\<close>

partial_function (option) while_loop ::
  "'p corpus \<Rightarrow> real \<Rightarrow> real \<Rightarrow> nat \<Rightarrow> ('p, real) dict \<Rightarrow> (error + ('p, real) dict) option" where
  "while_loop corpus damping_factor odds N d =
     (case page_loop corpus damping_factor odds (map fst corpus) (d, 0) of
        Inl e \<Rightarrow> Some (Inl e)
      | Inr s \<Rightarrow>
          if snd s = N then Some (Inr (fst s))
          else while_loop corpus damping_factor odds N (fst s))"

declare while_loop.simps [code]

definition iterate_pagerank :: "'p corpus \<Rightarrow> real \<Rightarrow> (error + ('p, real) dict) option" where
  "iterate_pagerank corpus damping_factor =
     (let N = length corpus in
      if N = 0 then Some (Inl ZeroDivisionError)
      else
        let random_odds = 1 / real N;
            odds = (1 - damping_factor) / real N;
            d = dict_fill (map fst corpus) random_odds []
        in while_loop corpus damping_factor odds N d)"

section \<open>Reference definitions\<close>

text \<open>A generator that yields the same values at every call, for concrete runs.\<close>

definition constant_rng :: "nat \<Rightarrow> real \<Rightarrow> rng" where
  "constant_rng g u = \<lparr>randbelow_draw = g, random_draws = (\<lambda>i. u)\<rparr>"

text \<open>
  The synchronous (Jacobi-style) pass that the specification describes, for comparison
  with \<open>page_loop\<close>: every summation and every convergence test reads the snapshot
  \<open>old\<close> of the previous pass, and the new ranks are written to a separate dict.
\<close>

fun snapshot_loop ::
  "'p corpus \<Rightarrow> real \<Rightarrow> real \<Rightarrow> 'p list \<Rightarrow> ('p, real) dict \<Rightarrow>
   ('p, real) dict \<times> nat \<Rightarrow> error + (('p, real) dict \<times> nat)" where
  "snapshot_loop corpus damping_factor odds [] old s = Inr s"
| "snapshot_loop corpus damping_factor odds (page # rest) old (new, converted_count) =
     (case summation_loop page damping_factor old corpus 0 of
        Inl e \<Rightarrow> Inl e
      | Inr summation \<Rightarrow>
          (case map_of old page of
             None \<Rightarrow> Inl KeyError
           | Some r \<Rightarrow>
               snapshot_loop corpus damping_factor odds rest old
                 (dict_set new page (odds + summation),
                  if \<bar>r - (odds + summation)\<bar> < 0.001
                  then converted_count + 1 else converted_count)))"

definition synchronous_pass ::
  "'p corpus \<Rightarrow> real \<Rightarrow> real \<Rightarrow> ('p, real) dict \<Rightarrow> error + (('p, real) dict \<times> nat)" where
  "synchronous_pass corpus damping_factor odds old =
     snapshot_loop corpus damping_factor odds (map fst corpus) old ([], 0)"

text \<open>
  The pass of \<open>page_loop\<close> on rank functions instead of dicts, for the proofs:
  \<open>inflow\<close> is the value of \<open>summation\<close> for a page, \<open>in_place_ranks\<close> the ranks
  after the pages of a list have been updated in turn, and \<open>in_place_count\<close> the value
  of \<open>converted_count\<close> they produce.
\<close>

definition inflow :: "'p corpus \<Rightarrow> real \<Rightarrow> ('p \<Rightarrow> real) \<Rightarrow> 'p \<Rightarrow> real" where
  "inflow corpus damping_factor r page =
     (\<Sum>entry\<leftarrow>corpus.
        if page \<in> set (snd entry)
        then damping_factor * r (fst entry) / real (length (snd entry)) else 0)"

fun in_place_ranks ::
  "'p corpus \<Rightarrow> real \<Rightarrow> real \<Rightarrow> 'p list \<Rightarrow> ('p \<Rightarrow> real) \<Rightarrow> ('p \<Rightarrow> real)" where
  "in_place_ranks corpus damping_factor odds [] r = r"
| "in_place_ranks corpus damping_factor odds (page # rest) r =
     in_place_ranks corpus damping_factor odds rest
       (r(page := odds + inflow corpus damping_factor r page))"

fun in_place_count ::
  "'p corpus \<Rightarrow> real \<Rightarrow> real \<Rightarrow> 'p list \<Rightarrow> ('p \<Rightarrow> real) \<Rightarrow> nat" where
  "in_place_count corpus damping_factor odds [] r = 0"
| "in_place_count corpus damping_factor odds (page # rest) r =
     (if \<bar>r page - (odds + inflow corpus damping_factor r page)\<bar> < 0.001 then 1 else 0) +
     in_place_count corpus damping_factor odds rest
       (r(page := odds + inflow corpus damping_factor r page))"

text \<open>
  The pass as a linear map on rank vectors indexed by the position of a page in the
  corpus: \<open>coeff corpus d i j\<close> is the share of the rank of page \<open>j\<close> that the summation
  for page \<open>i\<close> adds. \<open>lower_weight\<close> and \<open>weighted_norm\<close> give the norm in which one
  in-place pass is a contraction.
\<close>

definition coeff :: "'p corpus \<Rightarrow> real \<Rightarrow> nat \<Rightarrow> nat \<Rightarrow> real" where
  "coeff corpus damping_factor i j =
     (if fst (corpus ! i) \<in> set (snd (corpus ! j))
      then damping_factor / real (length (snd (corpus ! j))) else 0)"




section \<open>Dicts\<close>

lemma dict_set_fresh: "k \<notin> fst ` set d \<Longrightarrow> dict_set d k v = d @ [(k, v)]"
  by (induction d) auto

lemma dict_fill_fresh:
  "distinct keys \<Longrightarrow> set keys \<inter> fst ` set d = {} \<Longrightarrow>
   dict_fill keys v d = d @ map (\<lambda>k. (k, v)) keys"
proof (induction keys arbitrary: d)
  case Nil
  then show ?case by simp
next
  case (Cons k keys)
  have fresh: "k \<notin> fst ` set d" using Cons.prems(2) by auto
  have "set keys \<inter> fst ` set (d @ [(k, v)]) = {}"
    using Cons.prems by auto
  with Cons.IH [of "d @ [(k, v)]"] Cons.prems(1) fresh show ?case
    by (simp add: dict_set_fresh)
qed

lemma dict_fill_empty: "distinct keys \<Longrightarrow> dict_fill keys v [] = map (\<lambda>k. (k, v)) keys"
  using dict_fill_fresh [of keys "[]" v] by simp

lemma map_of_tabulate:
  "map_of (map (\<lambda>k. (k, f k)) keys) l = (if l \<in> set keys then Some (f l) else None)"
  by (induction keys) auto

lemma dict_set_tabulate:
  "distinct keys \<Longrightarrow> l \<in> set keys \<Longrightarrow>
   dict_set (map (\<lambda>k. (k, f k)) keys) l v = map (\<lambda>k. (k, (f(l := v)) k)) keys"
  by (induction keys) auto

lemma add_prob_tabulate:
  "distinct keys \<Longrightarrow> distinct ls \<Longrightarrow> set ls \<subseteq> set keys \<Longrightarrow>
   add_prob prob ls (map (\<lambda>k. (k, f k)) keys) =
     Inr (map (\<lambda>k. (k, f k + (if k \<in> set ls then prob else 0))) keys)"
proof (induction ls arbitrary: f)
  case Nil
  then show ?case by simp
next
  case (Cons l ls)
  have l: "l \<in> set keys" "l \<notin> set ls" using Cons.prems by auto
  have "add_prob prob (l # ls) (map (\<lambda>k. (k, f k)) keys) =
        add_prob prob ls (map (\<lambda>k. (k, (f(l := f l + prob)) k)) keys)"
    using l(1) Cons.prems(1) by (simp add: map_of_tabulate dict_set_tabulate)
  also have "\<dots> = Inr (map (\<lambda>k. (k, (f(l := f l + prob)) k + (if k \<in> set ls then prob else 0))) keys)"
    using Cons.IH [of "f(l := f l + prob)"] Cons.prems by simp
  also have "\<dots> = Inr (map (\<lambda>k. (k, f k + (if k \<in> set (l # ls) then prob else 0))) keys)"
    using l(2) by auto
  finally show ?case .
qed

section \<open>transition\_model: the distribution\<close>

lemma wf_corpus_links:
  assumes "wf_corpus corpus" "map_of corpus p = Some ls"
  shows "distinct (map fst corpus)" "distinct ls" "set ls \<subseteq> set (map fst corpus)"
proof -
  have mem: "(p, ls) \<in> set corpus" using assms(2) by (rule map_of_SomeD)
  show "distinct (map fst corpus)" using assms(1) by (simp add: wf_corpus_def dict_inv_def)
  show "distinct ls" using assms(1) mem by (auto simp: wf_corpus_def link_sets_def list_all_iff)
  show "set ls \<subseteq> set (map fst corpus)"
    using assms(1) mem by (fastforce simp: wf_corpus_def links_closed_def list_all_iff)
qed

lemma transition_model_linked:
  assumes "wf_corpus corpus" "map_of corpus p = Some ls" "ls \<noteq> []"
  shows "transition_model corpus p d =
         Inr (map (\<lambda>q. (q, (1 - d) / real (length corpus) +
                           (if q \<in> set ls then d / real (length ls) else 0)))
                  (map fst corpus))"
proof -
  define keys where "keys = map fst corpus"
  note wf = wf_corpus_links [OF assms(1,2), folded keys_def]
  have "transition_model corpus p d =
        add_prob (d / real (length ls)) ls
          (dict_fill keys ((1 - d) / real (length corpus)) [])"
    using assms(2,3) by (simp add: transition_model_def keys_def)
  also have "\<dots> = add_prob (d / real (length ls)) ls
                     (map (\<lambda>k. (k, (1 - d) / real (length corpus))) keys)"
    using wf(1) by (simp only: dict_fill_empty)
  also have "\<dots> = Inr (map (\<lambda>q. (q, (1 - d) / real (length corpus) +
                           (if q \<in> set ls then d / real (length ls) else 0))) keys)"
    using wf by (rule add_prob_tabulate)
  finally show ?thesis by (simp only: keys_def)
qed

lemma transition_model_dangling:
  assumes "dict_inv corpus" "map_of corpus p = Some []"
  shows "transition_model corpus p d =
         Inr (map (\<lambda>q. (q, 1 / real (length corpus))) (map fst corpus))"
  using assms by (simp add: transition_model_def dict_fill_empty dict_inv_def o_def)


lemma sum_list_linked:
  fixes c :: real
  assumes "distinct keys" "distinct ls" "set ls \<subseteq> set keys"
  shows "sum_list (map (\<lambda>q. if q \<in> set ls then c else 0) keys) = real (length ls) * c"
proof -
  have "sum_list (map (\<lambda>q. if q \<in> set ls then c else 0) keys) =
        (\<Sum>q\<in>set keys. if q \<in> set ls then c else 0)"
    using assms(1) by (rule sum_list_distinct_conv_sum_set)
  also have "\<dots> = (\<Sum>q\<in>set keys \<inter> set ls. c)"
    by (rule sum.inter_restrict [symmetric]) simp
  also have "set keys \<inter> set ls = set ls" using assms(3) by auto
  also have "(\<Sum>q\<in>set ls. c) = real (card (set ls)) * c" by simp
  also have "card (set ls) = length ls" using assms(2) by (rule distinct_card)
  finally show ?thesis .
qed

lemma sum_list_tabulate_add:
  fixes f g :: "'a \<Rightarrow> real"
  shows "sum_list (map snd (map (\<lambda>q. (q, f q + g q)) keys)) =
         sum_list (map f keys) + sum_list (map g keys)"
  by (induction keys) auto

lemma transition_model_total:
  assumes "wf_corpus corpus" "p \<in> set (map fst corpus)" "0 \<le> d" "d \<le> 1"
  shows "\<exists>m. transition_model corpus p d = Inr m \<and> map fst m = map fst corpus \<and>
             (\<forall>v\<in>set (map snd m). 0 \<le> v) \<and> sum_list (map snd m) = 1"
proof -
  define N where "N = real (length corpus)"
  have Npos: "0 < N" using assms(2) by (cases corpus) (auto simp: N_def)
  from assms(2) obtain ls where ls: "map_of corpus p = Some ls"
    by (metis map_of_eq_None_iff not_None_eq set_map)
  note wf = wf_corpus_links [OF assms(1) ls]
  show ?thesis
  proof (cases "ls = []")
    case True
    have inv: "dict_inv corpus" using assms(1) by (simp add: wf_corpus_def)
    let ?m = "map (\<lambda>q. (q, 1 / N)) (map fst corpus)"
    have "transition_model corpus p d = Inr ?m"
      using transition_model_dangling [OF inv, of p d] ls True by (simp add: N_def)
    moreover have "map fst ?m = map fst corpus" by (simp add: o_def)
    moreover have "\<forall>v\<in>set (map snd ?m). 0 \<le> v" using Npos by auto
    moreover have "sum_list (map snd ?m) = 1"
      using Npos by (simp add: o_def sum_list_triv N_def)
    ultimately show ?thesis by blast
  next
    case False
    define L where "L = real (length ls)"
    have Lpos: "0 < L" using False by (simp add: L_def)
    let ?f = "\<lambda>q::'a. (1 - d) / N"
    let ?g = "\<lambda>q. if q \<in> set ls then d / L else 0"
    let ?m = "map (\<lambda>q. (q, ?f q + ?g q)) (map fst corpus)"
    have "transition_model corpus p d = Inr ?m"
      using transition_model_linked [OF assms(1) ls False, of d] by (simp add: N_def L_def)
    moreover have "map fst ?m = map fst corpus" by (simp add: o_def)
    moreover have "\<forall>v\<in>set (map snd ?m). 0 \<le> v"
      using Npos Lpos assms(3,4) by auto
    moreover have "sum_list (map snd ?m) = 1"
    proof -
      have "sum_list (map snd ?m) =
            sum_list (map ?f (map fst corpus)) + sum_list (map ?g (map fst corpus))"
        by (rule sum_list_tabulate_add)
      also have "sum_list (map ?f (map fst corpus)) = N * ((1 - d) / N)"
        by (simp add: o_def sum_list_triv N_def)
      also have "sum_list (map ?g (map fst corpus)) = L * (d / L)"
        unfolding L_def using wf by (rule sum_list_linked)
      finally show ?thesis using Npos Lpos by simp
    qed
    ultimately show ?thesis by blast
  qed
qed

text \<open>
  Outside the invariant of the data model the function raises: a link to a page that is
  no key of the corpus makes \<^verbatim>\<open>d[page_link] += prob\<close> fail with KeyError.
\<close>

lemma transition_model_open_link:
  "transition_model [(''1.html'', [''x.html''])] ''1.html'' d = Inl KeyError"
  by (simp add: transition_model_def)

text \<open>
  Claim C5. In a well-formed corpus of \<open>N\<close> pages, for a page \<open>p\<close> with \<open>L \<ge> 1\<close> outbound
  links, \<open>transition_model\<close> returns the mapping that gives every page of the corpus
  \<open>(1 - d) / N\<close>, plus \<open>d / L\<close> when the page is in the link set of \<open>p\<close>.
\<close>

theorem C5_transition_model_linked:
  assumes "wf_corpus corpus" "map_of corpus p = Some ls" "1 \<le> length ls"
  shows "transition_model corpus p d =
         Inr (map (\<lambda>q. (q, (1 - d) / real (length corpus) +
                           (if q \<in> set ls then d / real (length ls) else 0)))
                  (map fst corpus))"
proof -
  have "ls \<noteq> []" using assms(3) by auto
  with assms(1,2) show ?thesis by (rule transition_model_linked)
qed

theorem C5_witness:
  "wf_corpus [(''1.html'', [''2.html'']), (''2.html'', [''1.html''])] \<and>
   map_of [(''1.html'', [''2.html'']), (''2.html'', [''1.html''])] ''1.html'' = Some [''2.html''] \<and>
   1 \<le> length [''2.html''] \<and>
   transition_model [(''1.html'', [''2.html'']), (''2.html'', [''1.html''])] ''1.html'' (85 / 100) =
     Inr [(''1.html'', 3 / 40), (''2.html'', 37 / 40)]"
  using C5_transition_model_linked
    [of "[(''1.html'', [''2.html'']), (''2.html'', [''1.html''])]" "''1.html''" "[''2.html'']" "85 / 100"]
  by (simp add: wf_corpus_def dict_inv_def link_sets_def links_closed_def)

text \<open>
  Claim C6. For a page \<open>p\<close> of the corpus with no outbound links, \<open>transition_model\<close>
  returns the mapping that gives every page of the corpus \<open>1 / N\<close>, whatever the
  damping factor; \<open>p\<close> is one of those pages.
\<close>

theorem C6_transition_model_dangling:
  assumes "dict_inv corpus" "map_of corpus p = Some []"
  shows "transition_model corpus p d =
           Inr (map (\<lambda>q. (q, 1 / real (length corpus))) (map fst corpus)) \<and>
         p \<in> set (map fst corpus)"
proof
  show "transition_model corpus p d =
          Inr (map (\<lambda>q. (q, 1 / real (length corpus))) (map fst corpus))"
    using assms by (rule transition_model_dangling)
  have "(p, []) \<in> set corpus" using assms(2) by (rule map_of_SomeD)
  then show "p \<in> set (map fst corpus)" by force
qed

theorem C6_witness:
  "dict_inv [(''1.html'', []), (''2.html'', [''1.html''])] \<and>
   map_of [(''1.html'', []), (''2.html'', [''1.html''])] ''1.html'' = Some [] \<and>
   transition_model [(''1.html'', []), (''2.html'', [''1.html''])] ''1.html'' (85 / 100) =
     Inr [(''1.html'', 1 / 2), (''2.html'', 1 / 2)]"
  using C6_transition_model_dangling
    [of "[(''1.html'', []), (''2.html'', [''1.html''])]" "''1.html''" "85 / 100"]
  by (simp add: dict_inv_def)

text \<open>
  Claim C7. For a well-formed corpus, a page \<open>p\<close> that is a key of it and a damping
  factor in \<open>(0, 1)\<close>, \<open>transition_model\<close> returns a mapping whose keys are the pages
  of the corpus, whose values are not negative and sum to \<open>1\<close> (in exact arithmetic).
\<close>

theorem C7_transition_model_distribution:
  assumes "wf_corpus corpus" "p \<in> set (map fst corpus)" "0 < d" "d < 1"
  shows "\<exists>m. transition_model corpus p d = Inr m \<and> map fst m = map fst corpus \<and>
             (\<forall>v\<in>set (map snd m). 0 \<le> v) \<and> sum_list (map snd m) = 1"
  using assms by (intro transition_model_total) auto

theorem C7_witness:
  "wf_corpus [(''1.html'', [''2.html'']), (''2.html'', [''1.html''])] \<and>
   ''2.html'' \<in> set (map fst [(''1.html'', [''2.html'']), (''2.html'', [''1.html''])]) \<and>
   (0::real) < 85 / 100 \<and> (85 / 100 :: real) < 1 \<and>
   (\<exists>m. transition_model [(''1.html'', [''2.html'']), (''2.html'', [''1.html''])] ''2.html'' (85 / 100) = Inr m \<and>
        map fst m = [''1.html'', ''2.html''] \<and>
        (\<forall>v\<in>set (map snd m). 0 \<le> v) \<and> sum_list (map snd m) = 1)"
  using C7_transition_model_distribution
    [of "[(''1.html'', [''2.html'']), (''2.html'', [''1.html''])]" "''2.html''" "85 / 100"]
  by (simp add: wf_corpus_def dict_inv_def link_sets_def links_closed_def)

section \<open>sample\_pagerank: failures\<close>

lemma dict_fill_not_empty: "keys \<noteq> [] \<or> d \<noteq> [] \<Longrightarrow> dict_fill keys v d \<noteq> []"
proof (induction keys arbitrary: d)
  case Nil
  then show ?case by simp
next
  case (Cons k keys)
  have "dict_set d k v \<noteq> []" by (cases d) (auto split: if_splits)
  then show ?case using Cons.IH [of "dict_set d k v"] by simp
qed

lemma divide_all_zero: "d \<noteq> [] \<Longrightarrow> divide_all d 0 = Inl ZeroDivisionError"
  by (cases d) auto

lemma divide_all_nonzero:
  "n \<noteq> 0 \<Longrightarrow> divide_all d n = Inr (map (\<lambda>(page, c). (page, real_of_int c / real_of_int n)) d)"
  by (induction d) auto

lemma sample_pagerank_empty: "sample_pagerank [] d n gen = Inl IndexError"
  by (simp add: sample_pagerank_def choice_def)

lemma sample_pagerank_zero:
  assumes "corpus \<noteq> []"
  shows "sample_pagerank corpus d 0 gen = Inl ZeroDivisionError"
proof -
  have "dict_fill (map fst corpus) (0::int) [] \<noteq> []"
    using assms by (intro dict_fill_not_empty) simp
  then show ?thesis
    using assms by (simp add: sample_pagerank_def choice_def divide_all_zero)
qed

lemma sample_pagerank_negative:
  assumes "dict_inv corpus" "corpus \<noteq> []" "n < 0"
  shows "sample_pagerank corpus d n gen = Inr (map (\<lambda>page. (page, 0)) (map fst corpus))"
proof -
  have "dict_fill (map fst corpus) (0::int) [] = map (\<lambda>k. (k, 0)) (map fst corpus)"
    using assms(1) by (simp only: dict_inv_def dict_fill_empty)
  then show ?thesis
    using assms(2,3) by (simp add: sample_pagerank_def choice_def divide_all_nonzero o_def)
qed

text \<open>
  Claim C9, as amended. \<open>sample_pagerank\<close> fails when the corpus is empty (IndexError
  from \<^verbatim>\<open>random.choice\<close>) or when \<open>n = 0\<close> (ZeroDivisionError in the final
  normalisation). For \<open>n < 0\<close> and a non-empty corpus nothing fails: the loop body never
  runs and every counter \<open>0\<close> is divided by \<open>n\<close>, so the all-zero mapping is returned.
\<close>

theorem C9_sample_pagerank_failure:
  "(corpus = [] \<or> n = 0 \<longrightarrow>
      sample_pagerank corpus d n gen =
        Inl (if corpus = [] then IndexError else ZeroDivisionError)) \<and>
   (dict_inv corpus \<and> corpus \<noteq> [] \<and> n < 0 \<longrightarrow>
      sample_pagerank corpus d n gen = Inr (map (\<lambda>page. (page, 0)) (map fst corpus)))"
  using sample_pagerank_empty [of d n gen] sample_pagerank_zero [of corpus d gen]
    sample_pagerank_negative [of corpus n d gen]
  by auto

theorem C9_witness:
  "sample_pagerank [] (85 / 100) 10000 (constant_rng 0 0) = Inl IndexError \<and>
   sample_pagerank [(''1.html'', [''2.html'']), (''2.html'', [''1.html''])] (85 / 100) 0
     (constant_rng 0 0) = Inl ZeroDivisionError \<and>
   sample_pagerank [(''1.html'', [''2.html'']), (''2.html'', [''1.html''])] (85 / 100) (- 3)
     (constant_rng 0 0) = Inr [(''1.html'', 0), (''2.html'', 0)]"
  using C9_sample_pagerank_failure [of "[]" 10000 "85 / 100" "constant_rng 0 0"]
    C9_sample_pagerank_failure
      [of "[(''1.html'', [''2.html'']), (''2.html'', [''1.html''])]" 0 "85 / 100" "constant_rng 0 0"]
    C9_sample_pagerank_failure
      [of "[(''1.html'', [''2.html'']), (''2.html'', [''1.html''])]" "- 3" "85 / 100" "constant_rng 0 0"]
  by (simp add: dict_inv_def)

text \<open>
  Claim C9 as stated fails at \<open>n = -1\<close> on the two-page cycle: a mapping is returned.
\<close>

theorem C9_counterexample:
  "sample_pagerank [(''1.html'', [''2.html'']), (''2.html'', [''1.html''])] (85 / 100) (- 1)
     (constant_rng 0 0) = Inr [(''1.html'', 0), (''2.html'', 0)]"
  by (simp add: sample_pagerank_def choice_def constant_rng_def)

section \<open>sample\_pagerank: the visit counts\<close>

lemma length_accumulate: "length (accumulate acc ws) = length ws"
  by (induction ws arbitrary: acc) auto

lemma last_accumulate: "ws \<noteq> [] \<Longrightarrow> last (accumulate acc ws) = acc + sum_list ws"
proof (induction ws arbitrary: acc)
  case Nil
  then show ?case by simp
next
  case (Cons w ws)
  show ?case
  proof (cases ws)
    case Nil
    then show ?thesis by simp
  next
    case (Cons w' ws')
    then have "accumulate (acc + w) ws \<noteq> []" by simp
    with Cons.IH [of "acc + w"] Cons show ?thesis by simp
  qed
qed

lemma bisect_range: "lo \<le> hi \<Longrightarrow> lo \<le> bisect a x lo hi \<and> bisect a x lo hi \<le> hi"
proof (induction a x lo hi rule: bisect.induct)
  case (1 a x lo hi)
  show ?case
  proof (cases "lo < hi")
    case False
    have "bisect a x lo hi = lo" using False by (subst bisect.simps) simp
    with 1(3) show ?thesis by simp
  next
    case True
    define mid where "mid = (lo + hi) div 2"
    have mid: "lo \<le> mid" "mid < hi" using True by (auto simp: mid_def)
    show ?thesis
    proof (cases "x < a ! mid")
      case lt: True
      have eq: "bisect a x lo hi = bisect a x lo mid"
        using True lt by (subst bisect.simps) (simp add: mid_def Let_def)
      have "lo \<le> bisect a x lo mid \<and> bisect a x lo mid \<le> mid"
        using "1.IH"(1) [OF True mid_def lt] mid by simp
      then show ?thesis using mid by (simp add: eq)
    next
      case ge: False
      have eq: "bisect a x lo hi = bisect a x (mid + 1) hi"
        using True ge by (subst bisect.simps) (simp add: mid_def Let_def)
      have "mid + 1 \<le> bisect a x (mid + 1) hi \<and> bisect a x (mid + 1) hi \<le> hi"
        using "1.IH"(2) [OF True mid_def ge] mid by simp
      then show ?thesis using mid by (simp add: eq)
    qed
  qed
qed

lemma choices_member:
  assumes "length weights = length population" "population \<noteq> []" "0 < sum_list weights"
  shows "\<exists>x\<in>set population. choices population weights u = Inr x"
proof -
  define cum where "cum = accumulate 0 weights"
  define k where "k = bisect cum (u * last cum) 0 (length population - 1)"
  have ne: "weights \<noteq> []" using assms(1,2) by auto
  have len: "length cum = length population" by (simp add: cum_def length_accumulate assms(1))
  have cne: "cum \<noteq> []" using len assms(2) by auto
  have tot: "last cum = sum_list weights" using ne by (simp add: cum_def last_accumulate)
  have "k \<le> length population - 1"
    unfolding k_def using bisect_range [of 0 "length population - 1"] by simp
  then have "k < length population" using assms(2) by (cases population) auto
  then have "population ! k \<in> set population" by simp
  moreover have "choices population weights u = Inr (population ! k)"
    using len cne tot assms(3)
    by (simp add: choices_def Let_def cum_def [symmetric] k_def)
  ultimately show ?thesis by blast
qed


lemma sample_loop_walk:
  assumes wf: "wf_corpus corpus" and d: "0 \<le> d" "d \<le> 1"
    and keys: "keys = map fst corpus" and page: "page \<in> set keys"
  shows "\<exists>visited last_page.
           walk corpus d keys us steps page = Inr visited \<and>
           length visited = length steps \<and> set visited \<subseteq> set keys \<and>
           sample_loop corpus d keys us steps (map (\<lambda>k. (k, cnt k)) keys, page) =
             Inr (map (\<lambda>k. (k, cnt k + int (count_list visited k))) keys, last_page)"
  using page
proof (induction steps arbitrary: cnt page)
  case Nil
  then show ?case by simp
next
  case (Cons i steps)
  have dist: "distinct keys" using wf by (simp add: keys wf_corpus_def dict_inv_def)
  have "page \<in> set (map fst corpus)" using Cons.prems by (simp add: keys)
  from transition_model_total [OF wf this d]
  obtain m where m: "transition_model corpus page d = Inr m" "map fst m = keys"
    "sum_list (map snd m) = 1"
    by (auto simp: keys)
  have len: "length (map snd m) = length keys" using m(2) by (metis length_map)
  have ne: "keys \<noteq> []" using Cons.prems by auto
  from choices_member [OF len ne, of "us i"] m(3)
  obtain nxt where nxt: "nxt \<in> set keys" "choices keys (map snd m) (us i) = Inr nxt"
    by auto
  define cnt' where "cnt' = cnt(page := cnt page + 1)"
  from Cons.IH [OF nxt(1), of cnt']
  obtain visited last_page where
    v: "walk corpus d keys us steps nxt = Inr visited" "length visited = length steps"
      "set visited \<subseteq> set keys"
      "sample_loop corpus d keys us steps (map (\<lambda>k. (k, cnt' k)) keys, nxt) =
         Inr (map (\<lambda>k. (k, cnt' k + int (count_list visited k))) keys, last_page)"
    by blast
  have upd: "dict_set (map (\<lambda>k. (k, cnt k)) keys) page (cnt page + 1) =
             map (\<lambda>k. (k, cnt' k)) keys"
    unfolding cnt'_def using dist Cons.prems by (rule dict_set_tabulate)
  have look: "map_of (map (\<lambda>k. (k, cnt k)) keys) page = Some (cnt page)"
    using Cons.prems by (simp add: map_of_tabulate)
  have "walk corpus d keys us (i # steps) page = Inr (page # visited)"
    using m(1) nxt(2) v(1) by simp
  moreover have "length (page # visited) = length (i # steps)" using v(2) by simp
  moreover have "set (page # visited) \<subseteq> set keys" using v(3) Cons.prems by simp
  moreover have "sample_loop corpus d keys us (i # steps) (map (\<lambda>k. (k, cnt k)) keys, page) =
      Inr (map (\<lambda>k. (k, cnt k + int (count_list (page # visited) k))) keys, last_page)"
  proof -
    have "sample_loop corpus d keys us (i # steps) (map (\<lambda>k. (k, cnt k)) keys, page) =
          sample_loop corpus d keys us steps (map (\<lambda>k. (k, cnt' k)) keys, nxt)"
      using look m(1) nxt(2) upd by simp
    also have "\<dots> = Inr (map (\<lambda>k. (k, cnt' k + int (count_list visited k))) keys, last_page)"
      by (rule v(4))
    also have "map (\<lambda>k. (k, cnt' k + int (count_list visited k))) keys =
               map (\<lambda>k. (k, cnt k + int (count_list (page # visited) k))) keys"
      by (auto simp: cnt'_def)
    finally show ?thesis .
  qed
  ultimately show ?case by blast
qed

lemma divide_all_tabulate:
  "n \<noteq> 0 \<Longrightarrow>
   divide_all (map (\<lambda>k. (k, cnt k)) keys) n =
     Inr (map (\<lambda>k. (k, real_of_int (cnt k) / real_of_int n)) keys)"
  by (simp add: divide_all_nonzero o_def)



lemma sample_pagerank_visits:
  assumes wf: "wf_corpus corpus" and ne: "corpus \<noteq> []"
    and d: "0 \<le> d" "d \<le> 1" and n: "1 \<le> n"
  shows "\<exists>first_page visited.
           choice (map fst corpus) (randbelow_draw gen) = Inr first_page \<and>
           walk corpus d (map fst corpus) (random_draws gen) [0 ..< nat n] first_page =
             Inr visited \<and>
           length visited = nat n \<and> set visited \<subseteq> set (map fst corpus) \<and>
           sample_pagerank corpus d n gen =
             Inr (map (\<lambda>page. (page, real (count_list visited page) / real_of_int n))
                    (map fst corpus))"
proof -
  define keys where "keys = map fst corpus"
  define first_page where "first_page = keys ! (randbelow_draw gen mod length keys)"
  have kne: "keys \<noteq> []" using ne by (simp add: keys_def)
  have dist: "distinct keys" using wf by (simp add: keys_def wf_corpus_def dict_inv_def)
  have ch: "choice keys (randbelow_draw gen) = Inr first_page"
    using kne by (simp add: choice_def first_page_def)
  have fp: "first_page \<in> set keys" using kne by (simp add: first_page_def)
  have fill: "dict_fill keys (0::int) [] = map (\<lambda>k. (k, 0)) keys"
    using dist by (rule dict_fill_empty)
  from sample_loop_walk [OF wf d keys_def fp, of "random_draws gen" "[0 ..< nat n]" "\<lambda>k. 0"]
  obtain visited last_page where
    v: "walk corpus d keys (random_draws gen) [0 ..< nat n] first_page = Inr visited"
      "length visited = nat n" "set visited \<subseteq> set keys"
      "sample_loop corpus d keys (random_draws gen) [0 ..< nat n]
         (map (\<lambda>k. (k, 0)) keys, first_page) =
       Inr (map (\<lambda>k. (k, int (count_list visited k))) keys, last_page)"
    by auto
  have "sample_pagerank corpus d n gen =
        divide_all (map (\<lambda>k. (k, int (count_list visited k))) keys) n"
    using ch fill v(4) by (simp add: sample_pagerank_def keys_def [symmetric])
  also have "\<dots> = Inr (map (\<lambda>k. (k, real (count_list visited k) / real_of_int n)) keys)"
    using n divide_all_tabulate [of n "\<lambda>k. int (count_list visited k)" keys] by simp
  finally show ?thesis using ch v(1,2,3) unfolding keys_def by blast
qed



section \<open>The single-page corpus\<close>

lemma count_list_only:
  "set visited \<subseteq> {p} \<Longrightarrow> count_list visited p = length visited"
  by (induction visited) auto

lemma sample_pagerank_single_page:
  assumes "0 \<le> d" "d \<le> 1" "1 \<le> n"
  shows "sample_pagerank [(p, [])] d n gen = Inr [(p, 1)]"
proof -
  have wf: "wf_corpus [(p, [])]"
    by (simp add: wf_corpus_def dict_inv_def link_sets_def links_closed_def)
  from sample_pagerank_visits [OF wf _ assms, of gen]
  obtain visited where v: "length visited = nat n" "set visited \<subseteq> {p}"
    "sample_pagerank [(p, [])] d n gen =
       Inr [(p, real (count_list visited p) / real_of_int n)]"
    by auto
  have "real (count_list visited p) = real_of_int n"
    using count_list_only [OF v(2)] v(1) assms(3) by simp
  then show ?thesis using v(3) assms(3) by simp
qed

lemma iterate_pagerank_single_page:
  "iterate_pagerank [(p, [])] d = Some (Inr [(p, 1 - d)])"
proof (cases "\<bar>d\<bar> < 0.001")
  case True
  then show ?thesis
    by (simp add: iterate_pagerank_def while_loop.simps [of "[(p, [])]" _ _ _ "[(p, 1)]"])
next
  case False
  then show ?thesis
    by (simp add: iterate_pagerank_def while_loop.simps [of "[(p, [])]" _ _ _ "[(p, 1)]"]
        while_loop.simps [of "[(p, [])]" _ _ _ "[(p, 1 - d)]"])
qed

text \<open>
  Claim C4. On the single-page corpus \<open>{"a.html": set()}\<close>, \<open>sample_pagerank\<close> returns
  \<open>{"a.html": 1.0}\<close> for every damping factor in \<open>(0, 1)\<close>, every \<open>n \<ge> 1\<close> and every
  generator. \<open>iterate_pagerank\<close> returns \<open>{"a.html": 1 - d}\<close> for every damping factor
  \<open>d\<close> (\<open>0.15\<close> at \<open>d = 0.85\<close>), not \<open>{"a.html": 1.0}\<close>: the rank of the dangling
  page is not redistributed.
\<close>

theorem C4_single_page:
  "(0 < d \<and> d < 1 \<and> 1 \<le> n \<longrightarrow>
      sample_pagerank [(''a.html'', [])] d n gen = Inr [(''a.html'', 1)]) \<and>
   iterate_pagerank [(''a.html'', [])] d = Some (Inr [(''a.html'', 1 - d)])"
  using sample_pagerank_single_page [of d n "''a.html''" gen]
    iterate_pagerank_single_page [of "''a.html''" d]
  by simp

theorem C4_witness:
  "sample_pagerank [(''a.html'', [])] (85 / 100) 10000 (constant_rng 0 0) = Inr [(''a.html'', 1)] \<and>
   iterate_pagerank [(''a.html'', [])] (85 / 100) = Some (Inr [(''a.html'', 15 / 100)])"
  using C4_single_page [of "85 / 100" 10000 "constant_rng 0 0"]
  by simp

section \<open>iterate\_pagerank: the pass on rank functions\<close>

lemma summation_loop_tabulate:
  "set (map fst entries) \<subseteq> set keys \<Longrightarrow>
   summation_loop page df (map (\<lambda>k. (k, r k)) keys) entries s =
     Inr (s + inflow entries df r page)"
proof (induction entries arbitrary: s)
  case Nil
  then show ?case by (simp add: inflow_def)
next
  case (Cons entry entries)
  obtain link link_set where entry: "entry = (link, link_set)" by (cases entry)
  have link: "link \<in> set keys" using Cons.prems entry by simp
  have rest: "set (map fst entries) \<subseteq> set keys" using Cons.prems by simp
  have tail: "inflow ((link, link_set) # entries) df r page =
        (if page \<in> set link_set then df * r link / real (length link_set) else 0) +
        inflow entries df r page"
    by (simp add: inflow_def)
  show ?case
    using Cons.IH [OF rest] link
    by (simp add: entry tail map_of_tabulate del: map_map)
qed

lemma page_loop_tabulate:
  assumes "keys = map fst corpus" "distinct keys"
  shows "set pages \<subseteq> set keys \<Longrightarrow>
         page_loop corpus df odds pages (map (\<lambda>k. (k, r k)) keys, cc) =
           Inr (map (\<lambda>k. (k, in_place_ranks corpus df odds pages r k)) keys,
                cc + in_place_count corpus df odds pages r)"
proof (induction pages arbitrary: r cc)
  case Nil
  then show ?case by simp
next
  case (Cons page pages)
  define v where "v = odds + inflow corpus df r page"
  have page: "page \<in> set keys" and rest: "set pages \<subseteq> set keys" using Cons.prems by auto
  have s: "summation_loop page df (map (\<lambda>k. (k, r k)) keys) corpus 0 =
           Inr (inflow corpus df r page)"
    using summation_loop_tabulate [of corpus keys page df r 0] assms(1) by simp
  have look: "map_of (map (\<lambda>k. (k, r k)) keys) page = Some (r page)"
    using page by (simp add: map_of_tabulate)
  have upd: "dict_set (map (\<lambda>k. (k, r k)) keys) page v = map (\<lambda>k. (k, (r(page := v)) k)) keys"
    using assms(2) page by (rule dict_set_tabulate)
  have "page_loop corpus df odds (page # pages) (map (\<lambda>k. (k, r k)) keys, cc) =
        page_loop corpus df odds pages
          (map (\<lambda>k. (k, (r(page := v)) k)) keys,
           if \<bar>r page - v\<bar> < 0.001 then cc + 1 else cc)"
    using s look upd by (simp add: v_def)
  also have "\<dots> = Inr (map (\<lambda>k. (k, in_place_ranks corpus df odds pages (r(page := v)) k)) keys,
        (if \<bar>r page - v\<bar> < 0.001 then cc + 1 else cc) +
        in_place_count corpus df odds pages (r(page := v)))"
    by (rule Cons.IH [OF rest])
  finally show ?case by (simp add: v_def)
qed

lemma in_place_ranks_append:
  "in_place_ranks corpus df odds (xs @ ys) r =
   in_place_ranks corpus df odds ys (in_place_ranks corpus df odds xs r)"
  by (induction xs arbitrary: r) auto

lemma in_place_ranks_other:
  "q \<notin> set pages \<Longrightarrow> in_place_ranks corpus df odds pages r q = r q"
  by (induction pages arbitrary: r) auto

lemma in_place_ranks_nth:
  assumes "distinct pages" "i < length pages"
  shows "in_place_ranks corpus df odds pages r (pages ! i) =
         odds + inflow corpus df (in_place_ranks corpus df odds (take i pages) r) (pages ! i)"
proof -
  define ri where "ri = in_place_ranks corpus df odds (take i pages) r"
  have split: "pages = take i pages @ (pages ! i) # drop (Suc i) pages"
    using assms(2) by (simp add: id_take_nth_drop)
  have notin: "pages ! i \<notin> set (drop (Suc i) pages)"
    using assms split by (metis distinct.simps(2) distinct_append)
  have "in_place_ranks corpus df odds pages r =
        in_place_ranks corpus df odds (drop (Suc i) pages)
          (ri(pages ! i := odds + inflow corpus df ri (pages ! i)))"
    by (subst split) (simp add: in_place_ranks_append ri_def)
  then show ?thesis using notin by (simp add: in_place_ranks_other ri_def)
qed

lemma in_place_ranks_prefix:
  assumes "distinct pages"
  shows "in_place_ranks corpus df odds (take i pages) r q =
         (if q \<in> set (take i pages) then in_place_ranks corpus df odds pages r q else r q)"
proof (cases "q \<in> set (take i pages)")
  case False
  then show ?thesis by (simp add: in_place_ranks_other)
next
  case True
  have "distinct (take i pages @ drop i pages)" using assms by simp
  then have "q \<notin> set (drop i pages)" using True by (auto simp only: distinct_append)
  moreover have "in_place_ranks corpus df odds pages r =
      in_place_ranks corpus df odds (drop i pages) (in_place_ranks corpus df odds (take i pages) r)"
    by (metis append_take_drop_id in_place_ranks_append)
  ultimately show ?thesis using True by (simp add: in_place_ranks_other)
qed

lemma in_place_count_le: "in_place_count corpus df odds pages r \<le> length pages"
  by (induction pages arbitrary: r) (auto simp: le_SucI)

lemma in_place_count_full:
  "distinct pages \<Longrightarrow>
   (in_place_count corpus df odds pages r = length pages) =
   (\<forall>p\<in>set pages. \<bar>r p - in_place_ranks corpus df odds pages r p\<bar> < 0.001)"
proof (induction pages arbitrary: r)
  case Nil
  then show ?case by simp
next
  case (Cons page pages)
  define v where "v = odds + inflow corpus df r page"
  define r1 where "r1 = r(page := v)"
  have notin: "page \<notin> set pages" and dist: "distinct pages" using Cons.prems by auto
  have le: "in_place_count corpus df odds pages r1 \<le> length pages"
    by (rule in_place_count_le)
  have at_page: "in_place_ranks corpus df odds pages r1 page = v"
    using notin by (simp add: in_place_ranks_other r1_def)
  have others: "\<And>q. q \<in> set pages \<Longrightarrow> r1 q = r q" using notin by (auto simp: r1_def)
  have "(in_place_count corpus df odds (page # pages) r = length (page # pages)) =
        (\<bar>r page - v\<bar> < 0.001 \<and> in_place_count corpus df odds pages r1 = length pages)"
    using le by (auto simp: v_def r1_def)
  also have "\<dots> = (\<bar>r page - v\<bar> < 0.001 \<and>
        (\<forall>p\<in>set pages. \<bar>r1 p - in_place_ranks corpus df odds pages r1 p\<bar> < 0.001))"
    using Cons.IH [OF dist, of r1] by simp
  also have "\<dots> = (\<forall>p\<in>set (page # pages).
        \<bar>r p - in_place_ranks corpus df odds (page # pages) r p\<bar> < 0.001)"
    using at_page others by (simp add: v_def [symmetric] r1_def [symmetric])
  finally show ?case .
qed

lemma inflow_index:
  "inflow corpus df r page =
   (\<Sum>j<length corpus.
      if page \<in> set (snd (corpus ! j))
      then df * r (fst (corpus ! j)) / real (length (snd (corpus ! j))) else 0)"
proof -
  have "inflow corpus df r page =
        (\<Sum>j = 0..<length corpus.
           map (\<lambda>entry. if page \<in> set (snd entry)
                  then df * r (fst entry) / real (length (snd entry)) else 0) corpus ! j)"
    unfolding inflow_def by (subst sum_list_sum_nth) simp
  also have "\<dots> = (\<Sum>j = 0..<length corpus.
      if page \<in> set (snd (corpus ! j))
      then df * r (fst (corpus ! j)) / real (length (snd (corpus ! j))) else 0)"
    by (rule sum.cong) auto
  finally show ?thesis by (simp add: atLeast0LessThan)
qed

lemma nth_in_take:
  assumes "distinct keys" "i < length keys" "j < length keys"
  shows "keys ! j \<in> set (take i keys) \<longleftrightarrow> j < i"
proof
  assume "keys ! j \<in> set (take i keys)"
  then obtain m where m: "m < length (take i keys)" "take i keys ! m = keys ! j"
    by (auto simp: in_set_conv_nth)
  then have "m < i" "m < length keys" "keys ! m = keys ! j" using assms(2) by auto
  then show "j < i" using assms(1,3) by (simp add: nth_eq_iff_index_eq)
next
  assume "j < i"
  then have "take i keys ! j = keys ! j" "j < length (take i keys)" using assms(2) by auto
  then show "keys ! j \<in> set (take i keys)" by (metis nth_mem)
qed

lemma in_place_ranks_index:
  assumes dist: "distinct (map fst corpus)" and i: "i < length corpus"
    and keys_def: "keys = map fst corpus"
    and r'_def: "r' = in_place_ranks corpus df odds keys r"
  shows "r' (keys ! i) =
         odds + (\<Sum>j<length corpus.
                   coeff corpus df i j * (if j < i then r' (keys ! j) else r (keys ! j)))"
proof -
  define ri where "ri = in_place_ranks corpus df odds (take i keys) r"
  have len: "length keys = length corpus" by (simp add: keys_def)
  have dk: "distinct keys" using dist by (simp add: keys_def)
  have key: "fst (corpus ! j) = keys ! j" if "j < length corpus" for j
    using that by (simp add: keys_def)
  have ri: "ri (keys ! j) = (if j < i then r' (keys ! j) else r (keys ! j))"
    if "j < length corpus" for j
    unfolding ri_def r'_def in_place_ranks_prefix [OF dk]
    using nth_in_take [OF dk, of i j] i that len by simp
  have "r' (keys ! i) = odds + inflow corpus df ri (keys ! i)"
    unfolding r'_def ri_def using dk i len by (simp add: in_place_ranks_nth)
  also have "inflow corpus df ri (keys ! i) =
      (\<Sum>j<length corpus.
         coeff corpus df i j * (if j < i then r' (keys ! j) else r (keys ! j)))"
    unfolding inflow_index
  proof (rule sum.cong)
    fix j assume "j \<in> {..<length corpus}"
    then have j: "j < length corpus" by simp
    show "(if keys ! i \<in> set (snd (corpus ! j))
           then df * ri (fst (corpus ! j)) / real (length (snd (corpus ! j))) else 0) =
          coeff corpus df i j * (if j < i then r' (keys ! j) else r (keys ! j))"
      using key [OF j] key [OF i] ri [OF j] by (simp add: coeff_def)
  qed simp
  finally show ?thesis .
qed


section \<open>iterate\_pagerank: contraction of the in-place pass\<close>











lemma while_loop_unfold:
  assumes keys: "keys = map fst corpus" and dist: "distinct keys"
  shows "while_loop corpus df odds N (map (\<lambda>k. (k, r k)) keys) =
         (if in_place_count corpus df odds keys r = N
          then Some (Inr (map (\<lambda>k. (k, in_place_ranks corpus df odds keys r k)) keys))
          else while_loop corpus df odds N
                 (map (\<lambda>k. (k, in_place_ranks corpus df odds keys r k)) keys))"
proof -
  have "page_loop corpus df odds (map fst corpus) (map (\<lambda>k. (k, r k)) keys, 0) =
        Inr (map (\<lambda>k. (k, in_place_ranks corpus df odds keys r k)) keys,
             0 + in_place_count corpus df odds keys r)"
    using page_loop_tabulate [OF keys dist, of keys df odds r 0] keys by simp
  then show ?thesis
    by (subst while_loop.simps) simp
qed


lemma dict_as_tabulate:
  assumes "distinct (map fst d)"
  shows "map (\<lambda>k. (k, case map_of d k of None \<Rightarrow> 0 | Some v \<Rightarrow> v)) (map fst d) = d"
proof (rule nth_equalityI)
  show "length (map (\<lambda>k. (k, case map_of d k of None \<Rightarrow> 0 | Some v \<Rightarrow> v)) (map fst d)) = length d"
    by simp
next
  fix i
  assume "i < length (map (\<lambda>k. (k, case map_of d k of None \<Rightarrow> 0 | Some v \<Rightarrow> v)) (map fst d))"
  then have i: "i < length d" by simp
  then have "(fst (d ! i), snd (d ! i)) \<in> set d" by simp
  then have "map_of d (fst (d ! i)) = Some (snd (d ! i))"
    using assms by (simp only: map_of_eq_Some_iff)
  then show "map (\<lambda>k. (k, case map_of d k of None \<Rightarrow> 0 | Some v \<Rightarrow> v)) (map fst d) ! i = d ! i"
    using i by (simp add: prod_eq_iff)
qed

lemma page_loop_in_place:
  assumes inv: "dict_inv corpus" and shape: "map fst d = map fst corpus"
  shows "\<exists>d' cnt.
           page_loop corpus df odds (map fst corpus) (d, 0) = Inr (d', cnt) \<and>
           map fst d' = map fst corpus \<and>
           (\<forall>i<length corpus.
              snd (d' ! i) =
              odds + (\<Sum>j<length corpus.
                        if fst (corpus ! i) \<in> set (snd (corpus ! j))
                        then df * (if j < i then snd (d' ! j) else snd (d ! j)) /
                             real (length (snd (corpus ! j)))
                        else 0)) \<and>
           (cnt = length corpus \<longleftrightarrow> (\<forall>i<length corpus. \<bar>snd (d ! i) - snd (d' ! i)\<bar> < 0.001)) \<and>
           while_loop corpus df odds (length corpus) d =
             (if cnt = length corpus then Some (Inr d')
              else while_loop corpus df odds (length corpus) d')"
proof -
  define keys where "keys = map fst corpus"
  define r where "r = (\<lambda>k. case map_of d k of None \<Rightarrow> (0::real) | Some v \<Rightarrow> v)"
  define r' where "r' = in_place_ranks corpus df odds keys r"
  define d' where "d' = map (\<lambda>k. (k, r' k)) keys"
  define cnt where "cnt = in_place_count corpus df odds keys r"
  have dist: "distinct (map fst corpus)" using inv by (simp add: dict_inv_def)
  have dk: "distinct keys" using dist by (simp add: keys_def)
  have len: "length keys = length corpus" by (simp add: keys_def)
  have d: "d = map (\<lambda>k. (k, r k)) keys"
    using dict_as_tabulate [of d] dist shape by (simp add: r_def keys_def)
  have old: "snd (d ! i) = r (keys ! i)" if "i < length corpus" for i
    using that len by (simp add: d)
  have new: "snd (d' ! i) = r' (keys ! i)" if "i < length corpus" for i
    using that len by (simp add: d'_def)
  have key: "fst (corpus ! i) = keys ! i" if "i < length corpus" for i
    using that by (simp add: keys_def)
  have pass: "page_loop corpus df odds (map fst corpus) (d, 0) = Inr (d', cnt)"
    using page_loop_tabulate [OF keys_def dk, of keys df odds r 0]
    by (simp add: d d'_def cnt_def r'_def keys_def [symmetric])
  have keys': "map fst d' = map fst corpus" by (simp add: d'_def keys_def o_def)
  have ranks: "snd (d' ! i) =
      odds + (\<Sum>j<length corpus.
                if fst (corpus ! i) \<in> set (snd (corpus ! j))
                then df * (if j < i then snd (d' ! j) else snd (d ! j)) /
                     real (length (snd (corpus ! j)))
                else 0)" if i: "i < length corpus" for i
  proof -
    have "snd (d' ! i) = odds + (\<Sum>j<length corpus.
        coeff corpus df i j * (if j < i then r' (keys ! j) else r (keys ! j)))"
      using in_place_ranks_index [OF dist i keys_def r'_def] new [OF i] by simp
    also have "(\<Sum>j<length corpus.
        coeff corpus df i j * (if j < i then r' (keys ! j) else r (keys ! j))) =
      (\<Sum>j<length corpus.
         if fst (corpus ! i) \<in> set (snd (corpus ! j))
         then df * (if j < i then snd (d' ! j) else snd (d ! j)) /
              real (length (snd (corpus ! j)))
         else 0)"
      by (rule sum.cong) (auto simp: coeff_def old new)
    finally show ?thesis .
  qed
  have stop: "cnt = length corpus \<longleftrightarrow> (\<forall>i<length corpus. \<bar>snd (d ! i) - snd (d' ! i)\<bar> < 0.001)"
  proof -
    have "cnt = length corpus \<longleftrightarrow> (\<forall>p\<in>set keys. \<bar>r p - r' p\<bar> < 0.001)"
      using in_place_count_full [OF dk, of corpus df odds r]
      by (simp add: cnt_def r'_def len)
    also have "\<dots> \<longleftrightarrow> (\<forall>i<length keys. \<bar>r (keys ! i) - r' (keys ! i)\<bar> < 0.001)"
      by (simp add: all_set_conv_all_nth)
    also have "\<dots> \<longleftrightarrow> (\<forall>i<length corpus. \<bar>snd (d ! i) - snd (d' ! i)\<bar> < 0.001)"
      by (simp add: old new len)
    finally show ?thesis .
  qed
  have loop: "while_loop corpus df odds (length corpus) d =
      (if cnt = length corpus then Some (Inr d')
       else while_loop corpus df odds (length corpus) d')"
    using while_loop_unfold [OF keys_def dk, of df odds "length corpus" r]
    by (simp add: d d'_def cnt_def r'_def)
  show ?thesis using pass keys' ranks stop loop by blast
qed







section \<open>iterate\_pagerank: a run that never ends\<close>




section \<open>iterate\_pagerank: the claims\<close>

text \<open>
  Claim C1. One pass of the iteration on the corpus \<open>{"1.html": set(), "2.html": {"1.html"}}\<close>,
  from any ranks \<open>r1\<close>, \<open>r2\<close>: the new ranks do not depend on the rank \<open>r1\<close> of the
  dangling page \<open>1.html\<close>. Page \<open>2.html\<close> gets \<open>odds\<close> alone and page \<open>1.html\<close> gets
  \<open>odds\<close> plus the share of \<open>2.html\<close>, so the rank \<open>r1\<close> is dropped from the sums.
\<close>

theorem C1_dangling_rank_dropped:
  "page_loop [(''1.html'', []), (''2.html'', [''1.html''])] damping_factor odds
     [''1.html'', ''2.html''] ([(''1.html'', r1), (''2.html'', r2)], 0) =
   Inr ([(''1.html'', odds + damping_factor * r2), (''2.html'', odds)],
        (if \<bar>r1 - (odds + damping_factor * r2)\<bar> < 0.001 then 1 else 0) +
        (if \<bar>r2 - odds\<bar> < 0.001 then 1 else 0))"
  by simp

text \<open>
  The run on the corpus \<open>{"1.html": set(), "2.html": {"1.html"}}\<close> with damping factor
  \<open>0.85\<close>: the ranks returned sum to \<open>0.21375\<close>.
\<close>

lemma iterate_pagerank_dangling_example:
  "iterate_pagerank [(''1.html'', []), (''2.html'', [''1.html''])] (85 / 100) =
     Some (Inr [(''1.html'', 111 / 800), (''2.html'', 3 / 40)]) \<and>
   sum_list (map snd [(''1.html'', 111 / 800 :: real), (''2.html'', 3 / 40)]) = 171 / 800"
  by code_simp




text \<open>
  Claim C3, as amended. A pass of the loop updates the rank dict in place, in corpus
  order: the new rank of the \<open>i\<close>-th page is \<open>odds\<close> plus the shares
  \<open>damping_factor * rank / outdegree\<close> of the pages that link to it, where the rank
  of a linking page is the one this pass has already written when that page comes
  earlier in the corpus, and the one of the previous pass otherwise. The counter equals
  \<open>N\<close> exactly when every page's new rank is within \<open>0.001\<close> of its previous rank, and the
  loop decides at the end of the pass: it returns the new dict when the counter is \<open>N\<close>
  and runs another pass on the new dict otherwise.
\<close>

theorem C3_in_place_pass:
  assumes "dict_inv corpus" "map fst d = map fst corpus"
  shows "\<exists>d' cnt.
           page_loop corpus df odds (map fst corpus) (d, 0) = Inr (d', cnt) \<and>
           map fst d' = map fst corpus \<and>
           (\<forall>i<length corpus.
              snd (d' ! i) =
              odds + (\<Sum>j<length corpus.
                        if fst (corpus ! i) \<in> set (snd (corpus ! j))
                        then df * (if j < i then snd (d' ! j) else snd (d ! j)) /
                             real (length (snd (corpus ! j)))
                        else 0)) \<and>
           (cnt = length corpus \<longleftrightarrow> (\<forall>i<length corpus. \<bar>snd (d ! i) - snd (d' ! i)\<bar> < 0.001)) \<and>
           while_loop corpus df odds (length corpus) d =
             (if cnt = length corpus then Some (Inr d')
              else while_loop corpus df odds (length corpus) d')"
  using assms by (rule page_loop_in_place)

theorem C3_witness:
  "dict_inv [(''1.html'', [''2.html'']), (''2.html'', [''1.html'', ''3.html'']), (''3.html'', [''1.html''])] \<and>
   map fst [(''1.html'', 1 / 3 :: real), (''2.html'', 1 / 3), (''3.html'', 1 / 3)] =
   map fst [(''1.html'', [''2.html'']), (''2.html'', [''1.html'', ''3.html'']), (''3.html'', [''1.html''])] \<and>
   (\<exists>d' cnt.
      page_loop
        [(''1.html'', [''2.html'']), (''2.html'', [''1.html'', ''3.html'']), (''3.html'', [''1.html''])]
        (85 / 100) (5 / 100)
        (map fst [(''1.html'', [''2.html'']), (''2.html'', [''1.html'', ''3.html'']), (''3.html'', [''1.html''])])
        ([(''1.html'', 1 / 3), (''2.html'', 1 / 3), (''3.html'', 1 / 3)], 0) = Inr (d', cnt) \<and>
      snd (d' ! 1) =
        5 / 100 + (\<Sum>j<3.
           if ''2.html'' \<in> set (snd ([(''1.html'', [''2.html'']), (''2.html'', [''1.html'', ''3.html'']),
                                         (''3.html'', [''1.html''])] ! j))
           then 85 / 100 *
                (if j < 1 then snd (d' ! j)
                 else snd ([(''1.html'', 1 / 3 :: real), (''2.html'', 1 / 3), (''3.html'', 1 / 3)] ! j)) /
                real (length (snd ([(''1.html'', [''2.html'']), (''2.html'', [''1.html'', ''3.html'']),
                                    (''3.html'', [''1.html''])] ! j)))
           else 0))"
proof -
  let ?c = "[(''1.html'', [''2.html'']), (''2.html'', [''1.html'', ''3.html'']), (''3.html'', [''1.html''])]"
  let ?d = "[(''1.html'', 1 / 3 :: real), (''2.html'', 1 / 3), (''3.html'', 1 / 3)]"
  have h1: "dict_inv ?c" by (simp add: dict_inv_def)
  have h2: "map fst ?d = map fst ?c" by simp
  have len: "length ?c = 3" by simp
  have snd: "fst (?c ! 1) = ''2.html''" by simp
  from C3_in_place_pass [OF h1 h2, of "85 / 100" "5 / 100"]
  obtain d' cnt where
    p: "page_loop ?c (85 / 100) (5 / 100) (map fst ?c) (?d, 0) = Inr (d', cnt)"
    and r: "\<forall>i<length ?c.
              snd (d' ! i) =
              5 / 100 + (\<Sum>j<length ?c.
                        if fst (?c ! i) \<in> set (snd (?c ! j))
                        then 85 / 100 * (if j < i then snd (d' ! j) else snd (?d ! j)) /
                             real (length (snd (?c ! j)))
                        else 0)"
    by blast
  have "snd (d' ! 1) =
        5 / 100 + (\<Sum>j<3.
           if ''2.html'' \<in> set (snd (?c ! j))
           then 85 / 100 * (if j < 1 then snd (d' ! j) else snd (?d ! j)) /
                real (length (snd (?c ! j)))
           else 0)"
    using r [rule_format, of 1] unfolding len snd by simp
  with h1 h2 p show ?thesis by blast
qed

text \<open>
  Claim C3 as stated fails: on the three-page corpus below, the first pass of the loop
  from the initial ranks \<open>1/3\<close> differs from the synchronous pass. Page \<open>2.html\<close> is
  computed from the rank of \<open>1.html\<close> that this same pass has just written.
\<close>

theorem C3_counterexample:
  "page_loop
     [(''1.html'', [''2.html'']), (''2.html'', [''1.html'', ''3.html'']), (''3.html'', [''1.html''])]
     (85 / 100) (5 / 100) [''1.html'', ''2.html'', ''3.html'']
     ([(''1.html'', 1 / 3), (''2.html'', 1 / 3), (''3.html'', 1 / 3)], 0) =
     Inr ([(''1.html'', 19 / 40), (''2.html'', 363 / 800), (''3.html'', 7771 / 32000)], 0) \<and>
   synchronous_pass
     [(''1.html'', [''2.html'']), (''2.html'', [''1.html'', ''3.html'']), (''3.html'', [''1.html''])]
     (85 / 100) (5 / 100)
     [(''1.html'', 1 / 3), (''2.html'', 1 / 3), (''3.html'', 1 / 3)] =
     Inr ([(''1.html'', 19 / 40), (''2.html'', 1 / 3), (''3.html'', 23 / 120)], 1)"
  by code_simp




end
